theory Spec2Isabelle
  imports Complex_Main
begin

section \<open>The Metropolis-Hastings sampler of the Monte Carlo notebook\<close>

text \<open>
  The notebook defines three functions, \<^verbatim>\<open>proposal\<close>, \<^verbatim>\<open>accept\<close> and \<^verbatim>\<open>run_chain\<close>, on top of
  numpy's global random generator. The embedding below follows them line by line.

  \<^item> A sample is a one-dimensional numpy array, here a \<open>real list\<close>; float64 values are
    idealised as reals, so rounding, infinities and NaN are outside the model.
  \<^item> \<^verbatim>\<open>paramrange\<close> is a sequence of rows (low, high), here a list of pairs. The sequence
    with no row is the empty list \<^verbatim>\<open>[]\<close>.
  \<^item> Python integers (\<^verbatim>\<open>steps\<close>, \<^verbatim>\<open>D\<close>) are \<open>int\<close>.
  \<^item> Every exception is a value of \<open>error\<close>, and a function that may raise returns
    \<open>error + 'a\<close>.
  \<^item> numpy's hidden generator state is passed explicitly: every function that draws takes
    the generator state and returns the new one.
\<close>

subsection \<open>Errors\<close>

datatype error = IndexError | ValueError | ZeroDivisionError | EvaluatorFailure

definition bindE :: "error + 'a \<Rightarrow> ('a \<Rightarrow> error + 'b) \<Rightarrow> error + 'b" where
  "bindE m f = (case m of Inl e \<Rightarrow> Inl e | Inr x \<Rightarrow> f x)"

subsection \<open>Data\<close>

type_synonym sample = "real list"

type_synonym paramrange = "(real \<times> real) list"

text \<open>
  The density evaluator \<^verbatim>\<open>P\<close> with its extra arguments \<^verbatim>\<open>*Pargs\<close> already applied. It may raise
  (\<open>Inl\<close>); it draws no random numbers.
\<close>

type_synonym density = "sample \<Rightarrow> error + real"

subsection \<open>The random source\<close>

text \<open>
  numpy's generator is not part of the repository. It is a parameter of the model: a state
  type \<open>'g\<close> with the two primitive draws that numpy builds everything else from,
  \<^verbatim>\<open>random_sample\<close> (uniform on the half-open interval from 0 to 1) and \<^verbatim>\<open>standard_normal\<close>.
\<close>

record 'g random_source =
  random_sample :: "'g \<Rightarrow> real \<times> 'g"
  standard_normal :: "'g \<Rightarrow> real \<times> 'g"

text \<open>\<^verbatim>\<open>np.random.uniform(low, high)\<close> is \<^verbatim>\<open>low + (high - low) * random_sample()\<close>.\<close>

definition uniform :: "'g random_source \<Rightarrow> real \<Rightarrow> real \<Rightarrow> 'g \<Rightarrow> real \<times> 'g" where
  "uniform rs low high g =
     (case random_sample rs g of (u, g') \<Rightarrow> (low + (high - low) * u, g'))"

text \<open>
  \<^verbatim>\<open>np.random.normal(loc, scale, size)\<close> raises ValueError for a negative scale or size and
  otherwise returns \<^verbatim>\<open>size\<close> values \<^verbatim>\<open>loc + scale * standard_normal()\<close>, drawn in order.
\<close>

fun normal_draws :: "'g random_source \<Rightarrow> real \<Rightarrow> real \<Rightarrow> nat \<Rightarrow> 'g \<Rightarrow> real list \<times> 'g" where
  "normal_draws rs loc scale 0 g = ([], g)"
| "normal_draws rs loc scale (Suc n) g =
     (case standard_normal rs g of (z, g1) \<Rightarrow>
        (case normal_draws rs loc scale n g1 of (zs, g2) \<Rightarrow>
           ((loc + scale * z) # zs, g2)))"

definition normal ::
  "'g random_source \<Rightarrow> real \<Rightarrow> real \<Rightarrow> int \<Rightarrow> 'g \<Rightarrow> error + (real list \<times> 'g)" where
  "normal rs loc scale sz g =
     (if scale < 0 \<or> sz < 0 then Inl ValueError
      else Inr (normal_draws rs loc scale (nat sz) g))"

text \<open>
  \<^verbatim>\<open>np.random.choice([True,False], p=[prob, 1.-prob])\<close>: numpy raises ValueError when a
  probability is negative; otherwise it draws one uniform variate \<open>u\<close> and returns the
  entry whose cumulative probability first exceeds \<open>u\<close>, which is \<^verbatim>\<open>True\<close> exactly when
  \<open>u < prob\<close>.
\<close>

definition choice :: "'g random_source \<Rightarrow> real \<Rightarrow> 'g \<Rightarrow> error + (bool \<times> 'g)" where
  "choice rs prob g =
     (if prob < 0 \<or> 1 - prob < 0 then Inl ValueError
      else (case random_sample rs g of (u, g') \<Rightarrow> Inr (u < prob, g')))"

subsection \<open>Array arithmetic\<close>

text \<open>
  Elementwise addition of two one-dimensional arrays with numpy's broadcasting: equal
  lengths add pointwise, an array of length one is stretched, anything else raises.
\<close>

definition add_arrays :: "sample \<Rightarrow> sample \<Rightarrow> error + sample" where
  "add_arrays xs ys =
     (if length xs = length ys then Inr (map2 (+) xs ys)
      else if length xs = 1 then Inr (map (\<lambda>y. hd xs + y) ys)
      else if length ys = 1 then Inr (map (\<lambda>x. x + hd ys) xs)
      else Inl ValueError)"

definition scale_array :: "real \<Rightarrow> sample \<Rightarrow> sample" where
  "scale_array c xs = map (\<lambda>x. c * x) xs"

text \<open>
  The division \<^verbatim>\<open>newprob/oldprob\<close>. A zero divisor is an error: Python floats raise
  ZeroDivisionError at once, and numpy floats yield an infinity or NaN that
  \<^verbatim>\<open>np.random.choice\<close> refuses as a probability. The model records the failure at the
  division.
\<close>

definition true_divide :: "real \<Rightarrow> real \<Rightarrow> error + real" where
  "true_divide a b = (if b = 0 then Inl ZeroDivisionError else Inr (a / b))"

subsection \<open>The proposal step\<close>

text \<open>
  \<^verbatim>\<open>
  def proposal(oldsamp,sigmaprop,D):
      newsamp = oldsamp + np.random.normal(0.,sigmaprop,D)
      return newsamp
  \<close>
\<close>

definition proposal ::
  "'g random_source \<Rightarrow> sample \<Rightarrow> real \<Rightarrow> int \<Rightarrow> 'g \<Rightarrow> error + (sample \<times> 'g)" where
  "proposal rs oldsamp sigmaprop D g =
     bindE (normal rs 0 sigmaprop D g) (\<lambda>(eps, g').
     bindE (add_arrays oldsamp eps) (\<lambda>newsamp.
     Inr (newsamp, g')))"

subsection \<open>The acceptance rule\<close>

text \<open>
  The range test of \<^verbatim>\<open>accept\<close> reads the lower bounds as \<^verbatim>\<open>np.transpose(paramrange)[:][0]\<close> and
  the upper bounds as \<^verbatim>\<open>np.transpose(paramrange)[:][1]\<close>. The transpose of \<^verbatim>\<open>[]\<close> is an array
  without entries, so indexing its row 0 raises IndexError before anything is compared;
  \<open>accept\<close> below starts with that check. With at least one row the two rows exist and
  the comparisons are those of \<open>in_range\<close>: every difference \<^verbatim>\<open>newsamp[d] - low[d]\<close> and every
  difference \<^verbatim>\<open>high[d] - newsamp[d]\<close> is positive, over the pairs that \<^verbatim>\<open>zip\<close> forms.
\<close>

definition in_range :: "sample \<Rightarrow> paramrange \<Rightarrow> bool" where
  "in_range newsamp paramrange \<longleftrightarrow>
     list_all (\<lambda>d. d > 0) (map (\<lambda>(p1, p2). p1 - p2) (zip newsamp (map fst paramrange))) \<and>
     list_all (\<lambda>d. d > 0) (map (\<lambda>(p1, p2). p1 - p2) (zip (map snd paramrange) newsamp))"

text \<open>
  \<^verbatim>\<open>
  def accept(newsamp,oldsamp,paramrange,P,*Pargs):
      if not ((np.array([p1 - p2 for p1, p2 in
                         zip(newsamp, np.transpose(paramrange)[:][0])])>0).all()
          and (np.array([p1 - p2 for p1, p2 in
                         zip(np.transpose(paramrange)[:][1],newsamp)])>0).all()):
          acc = False
          return acc, oldsamp
      newprob = P(newsamp,*Pargs)
      oldprob = P(oldsamp,*Pargs)
      if newprob >= oldprob:
          acc = True
          return acc, newsamp
      else:
          prob = newprob/oldprob
          acc = np.random.choice([True,False],p=[prob,1.-prob])
          return acc, acc*newsamp + (1. - acc)*oldsamp
  \<close>
\<close>

definition accept ::
  "'g random_source \<Rightarrow> sample \<Rightarrow> sample \<Rightarrow> paramrange \<Rightarrow> density \<Rightarrow> 'g
     \<Rightarrow> error + ((bool \<times> sample) \<times> 'g)" where
  "accept rs newsamp oldsamp paramrange P g =
     (if paramrange = [] then Inl IndexError
      else if \<not> in_range newsamp paramrange then Inr ((False, oldsamp), g)
      else
        bindE (P newsamp) (\<lambda>newprob.
        bindE (P oldsamp) (\<lambda>oldprob.
          if newprob \<ge> oldprob then Inr ((True, newsamp), g)
          else
            bindE (true_divide newprob oldprob) (\<lambda>prob.
            bindE (choice rs prob g) (\<lambda>(acc, g').
            bindE (add_arrays (scale_array (of_bool acc) newsamp)
                              (scale_array (1 - of_bool acc) oldsamp)) (\<lambda>s.
            Inr ((acc, s), g')))))))"

subsection \<open>The chain driver\<close>

text \<open>
  The starting point: for each \<open>d\<close> of \<^verbatim>\<open>range(D)\<close> in turn, read row \<open>d\<close> of \<^verbatim>\<open>paramrange\<close>
  (IndexError beyond its end) and draw \<^verbatim>\<open>np.random.uniform(low, high)\<close>.
\<close>

fun initial_draws ::
  "'g random_source \<Rightarrow> paramrange \<Rightarrow> nat list \<Rightarrow> 'g \<Rightarrow> error + (sample \<times> 'g)" where
  "initial_draws rs paramrange [] g = Inr ([], g)"
| "initial_draws rs paramrange (d # ds) g =
     (if d < length paramrange then
        (case uniform rs (fst (paramrange ! d)) (snd (paramrange ! d)) g of (x, g1) \<Rightarrow>
           bindE (initial_draws rs paramrange ds g1) (\<lambda>(xs, g2). Inr (x # xs, g2)))
      else Inl IndexError)"

text \<open>The local variables of the loop of \<^verbatim>\<open>run_chain\<close>.\<close>

record chain_state =
  st_oldsamp :: sample
  st_count :: nat
  st_samples :: "sample list"

text \<open>
  One iteration of the loop:
  \<^verbatim>\<open>
      newsamp = proposal(oldsamp,sigmaprop,D)
      acc, newsamp = accept(newsamp,oldsamp,paramrange,P,*Pargs)
      samples.append(newsamp)
      if acc:
          count += 1
      oldsamp = newsamp
  \<close>
\<close>

definition chain_step ::
  "'g random_source \<Rightarrow> paramrange \<Rightarrow> real \<Rightarrow> int \<Rightarrow> density \<Rightarrow> chain_state \<Rightarrow> 'g
     \<Rightarrow> error + (chain_state \<times> 'g)" where
  "chain_step rs paramrange sigmaprop D P st g =
     bindE (proposal rs (st_oldsamp st) sigmaprop D g) (\<lambda>(newsamp, g1).
     bindE (accept rs newsamp (st_oldsamp st) paramrange P g1) (\<lambda>((acc, newsamp'), g2).
     Inr (\<lparr>st_oldsamp = newsamp',
           st_count = (if acc then st_count st + 1 else st_count st),
           st_samples = st_samples st @ [newsamp']\<rparr>, g2)))"

fun chain_loop ::
  "'g random_source \<Rightarrow> paramrange \<Rightarrow> real \<Rightarrow> int \<Rightarrow> density \<Rightarrow> nat \<Rightarrow> chain_state \<Rightarrow> 'g
     \<Rightarrow> error + (chain_state \<times> 'g)" where
  "chain_loop rs paramrange sigmaprop D P 0 st g = Inr (st, g)"
| "chain_loop rs paramrange sigmaprop D P (Suc n) st g =
     bindE (chain_step rs paramrange sigmaprop D P st g) (\<lambda>(st', g').
     chain_loop rs paramrange sigmaprop D P n st' g')"

text \<open>
  \<^verbatim>\<open>
  def run_chain(steps,paramrange,sigmaprop,D,P,*Pargs):
      oldsamp=np.array([np.random.uniform(paramrange[d][0],paramrange[d][1]) for d in range(D)])
      count = 0
      samples = [oldsamp]
      for i in range(steps):
          ...
      ar = 1.*count/steps
      return np.array(samples), ar
  \<close>
  \<^verbatim>\<open>range(steps)\<close> is empty for \<^verbatim>\<open>steps <= 0\<close>; the division raises for \<^verbatim>\<open>steps == 0\<close>.
\<close>

definition run_chain ::
  "'g random_source \<Rightarrow> int \<Rightarrow> paramrange \<Rightarrow> real \<Rightarrow> int \<Rightarrow> density \<Rightarrow> 'g
     \<Rightarrow> error + ((sample list \<times> real) \<times> 'g)" where
  "run_chain rs steps paramrange sigmaprop D P g =
     bindE (initial_draws rs paramrange [0..<nat D] g) (\<lambda>(oldsamp, g1).
     bindE (chain_loop rs paramrange sigmaprop D P (nat steps)
              \<lparr>st_oldsamp = oldsamp, st_count = 0, st_samples = [oldsamp]\<rparr> g1) (\<lambda>(st, g2).
     bindE (true_divide (1 * real (st_count st)) (real_of_int steps)) (\<lambda>ar.
     Inr ((st_samples st, ar), g2))))"

subsection \<open>The notebook's own generator\<close>

text \<open>
  \<^verbatim>\<open>
  def rng(m=2**32, a=1103515245, b=12345):
      rng.current = (a*rng.current + b) % m
      return 1.*rng.current/m
  \<close>
  called with its default arguments, as the notebook does, and with the attribute
  \<^verbatim>\<open>rng.current\<close> passed explicitly.
\<close>

definition rng :: "int \<Rightarrow> real \<times> int" where
  "rng current =
     (let current' = (1103515245 * current + 12345) mod 2 ^ 32
      in (1 * real_of_int current' / 2 ^ 32, current'))"

text \<open>
  A concrete random source for running the sampler on examples: uniform variates from
  \<open>rng\<close>, and in place of numpy's normal variates the centred value \<open>2 u - 1\<close> of the
  next uniform variate.
\<close>

definition lcg_source :: "int random_source" where
  "lcg_source =
     \<lparr>random_sample = rng,
      standard_normal = (\<lambda>g. case rng g of (u, g') \<Rightarrow> (2 * u - 1, g'))\<rparr>"

text \<open>
  Three densities for examples: a flat one, a rational bump \<open>1 / (1 + x\<^sup>2)\<close>, and a tent
  that is zero outside the unit ball of the 1-norm.
\<close>

definition flat :: density where
  "flat x = Inr 1"

definition bump :: density where
  "bump x = Inr (1 / (1 + sum_list (map (\<lambda>c. c * c) x)))"

definition tent :: density where
  "tent x = Inr (max 0 (1 - sum_list (map abs x)))"

subsection \<open>Predicates used in the statements\<close>

text \<open>
  A sample has \<open>D\<close> components and each lies in the closed interval of its row of
  \<^verbatim>\<open>paramrange\<close>.
\<close>

definition within_bounds :: "int \<Rightarrow> paramrange \<Rightarrow> sample \<Rightarrow> bool" where
  "within_bounds D paramrange s \<longleftrightarrow>
     length s = nat D \<and>
     (\<forall>d < nat D. fst (paramrange ! d) \<le> s ! d \<and> s ! d \<le> snd (paramrange ! d))"

subsection \<open>The accept calls of a run\<close>

text \<open>
  The calls of \<open>accept\<close> that a run makes, in order: for each step the candidate and the
  current state passed to \<open>accept\<close>, and the boolean it returned. The recursion repeats the
  loop of \<^verbatim>\<open>run_chain\<close> and keeps this record in place of the trace and the counter.
\<close>

fun accept_history ::
  "'g random_source \<Rightarrow> paramrange \<Rightarrow> real \<Rightarrow> int \<Rightarrow> density \<Rightarrow> nat \<Rightarrow> sample \<Rightarrow> 'g
     \<Rightarrow> error + (sample \<times> sample \<times> bool) list" where
  "accept_history rs paramrange sigmaprop D P 0 oldsamp g = Inr []"
| "accept_history rs paramrange sigmaprop D P (Suc n) oldsamp g =
     bindE (proposal rs oldsamp sigmaprop D g) (\<lambda>(newsamp, g1).
     bindE (accept rs newsamp oldsamp paramrange P g1) (\<lambda>((acc, s), g2).
     bindE (accept_history rs paramrange sigmaprop D P n s g2) (\<lambda>h.
     Inr ((newsamp, oldsamp, acc) # h))))"

definition run_history ::
  "'g random_source \<Rightarrow> int \<Rightarrow> paramrange \<Rightarrow> real \<Rightarrow> int \<Rightarrow> density \<Rightarrow> 'g
     \<Rightarrow> error + (sample \<times> sample \<times> bool) list" where
  "run_history rs steps paramrange sigmaprop D P g =
     bindE (initial_draws rs paramrange [0..<nat D] g) (\<lambda>(oldsamp, g1).
     accept_history rs paramrange sigmaprop D P (nat steps) oldsamp g1)"

text \<open>The number of calls that returned \<^verbatim>\<open>True\<close>.\<close>

definition accepted :: "(sample \<times> sample \<times> bool) list \<Rightarrow> nat" where
  "accepted h = length (filter (\<lambda>(newsamp, oldsamp, acc). acc) h)"

subsection \<open>Random sources that deliver the same variates\<close>

text \<open>
  Two random sources, possibly over different state types, deliver the same variates from
  related states when each primitive draw returns the same value on both sides and leads
  to related states again. Two copies of one generator started from the same seed are the
  instance where the relation is equality.
\<close>

definition same_draws :: "('g \<Rightarrow> 'h \<Rightarrow> bool) \<Rightarrow> 'g random_source \<Rightarrow> 'h random_source \<Rightarrow> bool" where
  "same_draws R rs1 rs2 \<longleftrightarrow>
     (\<forall>g h. R g h \<longrightarrow>
        fst (random_sample rs1 g) = fst (random_sample rs2 h) \<and>
        R (snd (random_sample rs1 g)) (snd (random_sample rs2 h)) \<and>
        fst (standard_normal rs1 g) = fst (standard_normal rs2 h) \<and>
        R (snd (standard_normal rs1 g)) (snd (standard_normal rs2 h)))"

abbreviation rel_result ::
  "('g \<Rightarrow> 'h \<Rightarrow> bool) \<Rightarrow> error + ('a \<times> 'g) \<Rightarrow> error + ('a \<times> 'h) \<Rightarrow> bool" where
  "rel_result R \<equiv> rel_sum (=) (rel_prod (=) R)"

subsection \<open>The order of the draws\<close>

text \<open>
  A random source that also records which primitive draw was made, in order. Running the
  unchanged sampler on it shows the sequence of draws of a run.
\<close>

datatype draw = Uniform_draw | Normal_draw

definition logged :: "'g random_source \<Rightarrow> ('g \<times> draw list) random_source" where
  "logged rs =
     \<lparr>random_sample = (\<lambda>(g, l). case random_sample rs g of (u, g') \<Rightarrow> (u, (g', l @ [Uniform_draw]))),
      standard_normal = (\<lambda>(g, l). case standard_normal rs g of (z, g') \<Rightarrow> (z, (g', l @ [Normal_draw])))\<rparr>"

text \<open>
  The acceptance draw of a step is needed when the candidate passed the range test and its
  density is below the density of the current state.
\<close>

definition acceptance_draw :: "paramrange \<Rightarrow> density \<Rightarrow> sample \<times> sample \<times> bool \<Rightarrow> bool" where
  "acceptance_draw paramrange P c =
     (case c of (newsamp, oldsamp, acc) \<Rightarrow>
        in_range newsamp paramrange \<and>
        (case P newsamp of Inl e \<Rightarrow> False
         | Inr newprob \<Rightarrow> (case P oldsamp of Inl e \<Rightarrow> False | Inr oldprob \<Rightarrow> newprob < oldprob)))"

text \<open>
  The draws of one step: \<open>D\<close> normal variates for the proposal, then the acceptance draw
  when it is needed. The draws of a run: \<open>D\<close> uniform variates for the starting point, then
  the draws of each step.
\<close>

definition step_draws :: "int \<Rightarrow> paramrange \<Rightarrow> density \<Rightarrow> sample \<times> sample \<times> bool \<Rightarrow> draw list" where
  "step_draws D paramrange P c =
     replicate (nat D) Normal_draw @ (if acceptance_draw paramrange P c then [Uniform_draw] else [])"

definition run_draws ::
  "int \<Rightarrow> paramrange \<Rightarrow> density \<Rightarrow> (sample \<times> sample \<times> bool) list \<Rightarrow> draw list" where
  "run_draws D paramrange P h =
     replicate (nat D) Uniform_draw @ concat (map (step_draws D paramrange P) h)"

text \<open>A result with the draws \<open>ds\<close> appended to the log \<open>l\<close>.\<close>

definition add_log :: "draw list \<Rightarrow> draw list \<Rightarrow> error + ('a \<times> 'g) \<Rightarrow> error + ('a \<times> 'g \<times> draw list)" where
  "add_log l ds r = map_sum id (\<lambda>(a, g'). (a, (g', l @ ds))) r"

section \<open>Auxiliary facts\<close>

subsection \<open>Error propagation and array arithmetic\<close>

lemma bindE_Inl: "bindE (Inl e) f = Inl e"
  by (simp add: bindE_def)

lemma bindE_Inr: "bindE (Inr x) f = f x"
  by (simp add: bindE_def)

lemma bindE_eq_Inr:
  "bindE m f = Inr y \<longleftrightarrow> (\<exists>x. m = Inr x \<and> f x = Inr y)"
  by (cases m) (simp_all add: bindE_def)

lemma add_arrays_keep_new:
  "length newsamp = length oldsamp \<Longrightarrow>
   add_arrays (scale_array 1 newsamp) (scale_array 0 oldsamp) = Inr newsamp"
  by (simp add: add_arrays_def scale_array_def list_eq_iff_nth_eq)

lemma add_arrays_keep_old:
  "length newsamp = length oldsamp \<Longrightarrow>
   add_arrays (scale_array 0 newsamp) (scale_array 1 oldsamp) = Inr oldsamp"
  by (simp add: add_arrays_def scale_array_def list_eq_iff_nth_eq)

lemma in_range_nth:
  "in_range newsamp paramrange \<longleftrightarrow>
     (\<forall>d. d < length newsamp \<and> d < length paramrange \<longrightarrow>
        fst (paramrange ! d) < newsamp ! d \<and> newsamp ! d < snd (paramrange ! d))"
  by (auto simp: in_range_def list_all_length)

lemma accept_empty_range:
  "accept rs newsamp oldsamp [] P g = Inl IndexError"
  by (simp add: accept_def)

lemma accept_reject_range:
  "paramrange \<noteq> [] \<Longrightarrow> \<not> in_range newsamp paramrange \<Longrightarrow>
   accept rs newsamp oldsamp paramrange P g = Inr ((False, oldsamp), g)"
  by (simp add: accept_def)

lemma accept_ge:
  "paramrange \<noteq> [] \<Longrightarrow> in_range newsamp paramrange \<Longrightarrow>
   P newsamp = Inr newprob \<Longrightarrow> P oldsamp = Inr oldprob \<Longrightarrow> oldprob \<le> newprob \<Longrightarrow>
   accept rs newsamp oldsamp paramrange P g = Inr ((True, newsamp), g)"
  by (simp add: accept_def bindE_Inr)

lemma accept_less:
  assumes rows: "paramrange \<noteq> []" and inr: "in_range newsamp paramrange"
    and pn: "P newsamp = Inr newprob" and po: "P oldsamp = Inr oldprob"
    and nonneg: "0 \<le> newprob" and less: "newprob < oldprob"
    and len: "length newsamp = length oldsamp"
    and draw: "random_sample rs g = (u, g')"
  shows "accept rs newsamp oldsamp paramrange P g =
           Inr ((u < newprob / oldprob, if u < newprob / oldprob then newsamp else oldsamp), g')"
proof -
  from nonneg less have pos: "0 < oldprob" by simp
  with nonneg less have ratio: "0 \<le> newprob / oldprob" "newprob / oldprob < 1"
    by simp_all
  have ch: "choice rs (newprob / oldprob) g = Inr (u < newprob / oldprob, g')"
    using ratio draw by (simp add: choice_def)
  have div: "true_divide newprob oldprob = Inr (newprob / oldprob)"
    using pos by (simp add: true_divide_def)
  show ?thesis
    using rows inr pn po less len ch div
    by (simp add: accept_def bindE_Inr add_arrays_keep_new add_arrays_keep_old)
qed

subsection \<open>Shape and success of the driver\<close>

lemma length_normal_draws:
  "normal_draws rs loc scale n g = (zs, g') \<Longrightarrow> length zs = n"
  by (induction n arbitrary: g zs g') (auto split: prod.splits)

lemma proposal_length:
  assumes "proposal rs oldsamp sigmaprop D g = Inr (newsamp, g')"
    and "length oldsamp = nat D"
  shows "length newsamp = nat D"
proof -
  from assms(1) obtain eps where n: "normal rs 0 sigmaprop D g = Inr (eps, g')"
    and a: "add_arrays oldsamp eps = Inr newsamp"
    by (auto simp: proposal_def bindE_eq_Inr)
  from n have "length eps = nat D"
    by (auto simp: normal_def length_normal_draws split: if_splits)
  with a assms(2) show ?thesis
    by (auto simp: add_arrays_def)
qed

lemma proposal_succeeds:
  assumes "0 \<le> sigmaprop" and "0 \<le> D" and "length oldsamp = nat D"
  shows "\<exists>newsamp g'. proposal rs oldsamp sigmaprop D g = Inr (newsamp, g')"
proof -
  obtain eps g' where d: "normal_draws rs 0 sigmaprop (nat D) g = (eps, g')"
    by (cases "normal_draws rs 0 sigmaprop (nat D) g")
  then have "length eps = nat D"
    by (rule length_normal_draws)
  with d assms show ?thesis
    by (simp add: proposal_def normal_def bindE_Inr add_arrays_def)
qed

lemma accept_cases:
  assumes "accept rs newsamp oldsamp paramrange P g = Inr ((acc, s), g')"
    and "length newsamp = length oldsamp"
  shows "(acc \<and> s = newsamp \<and> in_range newsamp paramrange) \<or> (\<not> acc \<and> s = oldsamp)"
proof (cases "in_range newsamp paramrange")
  case False
  with assms(1) show ?thesis by (simp add: accept_def split: if_splits)
next
  case True
  from assms(1) have rows: "paramrange \<noteq> []"
    by (auto simp: accept_def)
  with True assms(1) obtain newprob oldprob where
    p: "P newsamp = Inr newprob" "P oldsamp = Inr oldprob"
    by (auto simp: accept_def bindE_eq_Inr)
  show ?thesis
  proof (cases "oldprob \<le> newprob")
    case True
    with assms(1) p rows \<open>in_range newsamp paramrange\<close> show ?thesis
      by (simp add: accept_ge)
  next
    case False
    with assms(1) p rows \<open>in_range newsamp paramrange\<close>
    obtain prob where
      s: "add_arrays (scale_array (of_bool acc) newsamp) (scale_array (1 - of_bool acc) oldsamp) = Inr s"
      by (auto simp: accept_def bindE_eq_Inr)
    with assms(2) \<open>in_range newsamp paramrange\<close> show ?thesis
      by (cases acc) (simp_all add: add_arrays_keep_new add_arrays_keep_old)
  qed
qed

lemma accept_succeeds:
  assumes dens: "\<forall>x. \<exists>p. P x = Inr p \<and> 0 \<le> p"
    and len: "length newsamp = length oldsamp"
    and rows: "paramrange \<noteq> []"
  shows "\<exists>acc s g'. accept rs newsamp oldsamp paramrange P g = Inr ((acc, s), g')"
proof -
  from dens obtain newprob oldprob where
    p: "P newsamp = Inr newprob" "0 \<le> newprob" "P oldsamp = Inr oldprob" "0 \<le> oldprob"
    by metis
  obtain u g' where u: "random_sample rs g = (u, g')"
    by (cases "random_sample rs g")
  show ?thesis
  proof (cases "in_range newsamp paramrange")
    case False
    with rows show ?thesis by (auto simp: accept_reject_range)
  next
    case True
    show ?thesis
    proof (cases "oldprob \<le> newprob")
      case True
      with p rows \<open>in_range newsamp paramrange\<close> show ?thesis by (auto simp: accept_ge)
    next
      case False
      with p rows \<open>in_range newsamp paramrange\<close> len u show ?thesis
        by (auto simp: accept_less)
    qed
  qed
qed

lemma chain_step_eq_Inr:
  "chain_step rs paramrange sigmaprop D P st g = Inr (st', g') \<longleftrightarrow>
     (\<exists>newsamp g1 acc s.
        proposal rs (st_oldsamp st) sigmaprop D g = Inr (newsamp, g1) \<and>
        accept rs newsamp (st_oldsamp st) paramrange P g1 = Inr ((acc, s), g') \<and>
        st' = \<lparr>st_oldsamp = s,
               st_count = (if acc then st_count st + 1 else st_count st),
               st_samples = st_samples st @ [s]\<rparr>)"
  by (auto simp: chain_step_def bindE_eq_Inr)

lemma chain_step_succeeds:
  assumes "0 \<le> sigmaprop" and "0 \<le> D" and "length (st_oldsamp st) = nat D"
    and "\<forall>x. \<exists>p. P x = Inr p \<and> 0 \<le> p" and "paramrange \<noteq> []"
  shows "\<exists>st' g'. chain_step rs paramrange sigmaprop D P st g = Inr (st', g')"
proof -
  from proposal_succeeds [OF assms(1,2,3), where rs = rs and g = g] obtain newsamp g1
    where pr: "proposal rs (st_oldsamp st) sigmaprop D g = Inr (newsamp, g1)"
    by blast
  then have "length newsamp = length (st_oldsamp st)"
    using assms(3) by (simp add: proposal_length)
  from accept_succeeds [OF assms(4) this assms(5), where rs = rs and g = g1] obtain acc s g'
    where "accept rs newsamp (st_oldsamp st) paramrange P g1 = Inr ((acc, s), g')"
    by blast
  with pr show ?thesis
    by (simp add: chain_step_eq_Inr)
qed

lemma chain_step_shape:
  assumes "chain_step rs paramrange sigmaprop D P st g = Inr (st', g')"
    and "length (st_oldsamp st) = nat D"
  shows "length (st_oldsamp st') = nat D"
    and "length (st_samples st') = Suc (length (st_samples st))"
proof -
  from assms(1) obtain newsamp g1 acc s where
    pr: "proposal rs (st_oldsamp st) sigmaprop D g = Inr (newsamp, g1)" and
    ac: "accept rs newsamp (st_oldsamp st) paramrange P g1 = Inr ((acc, s), g')" and
    st': "st' = \<lparr>st_oldsamp = s,
               st_count = (if acc then st_count st + 1 else st_count st),
               st_samples = st_samples st @ [s]\<rparr>"
    unfolding chain_step_eq_Inr by blast
  from pr assms(2) have len: "length newsamp = length (st_oldsamp st)"
    by (simp add: proposal_length)
  from accept_cases [OF ac len] len assms(2) st'
  show "length (st_oldsamp st') = nat D" by auto
  from st' show "length (st_samples st') = Suc (length (st_samples st))" by simp
qed

lemma chain_loop_shape:
  assumes "chain_loop rs paramrange sigmaprop D P n st g = Inr (st', g')"
    and "length (st_oldsamp st) = nat D"
  shows "length (st_samples st') = length (st_samples st) + n"
  using assms
proof (induction n arbitrary: st g)
  case 0
  then show ?case by simp
next
  case (Suc n)
  from Suc.prems(1) obtain st1 g1 where
    s: "chain_step rs paramrange sigmaprop D P st g = Inr (st1, g1)" and
    l: "chain_loop rs paramrange sigmaprop D P n st1 g1 = Inr (st', g')"
    by (auto simp: bindE_eq_Inr)
  from chain_step_shape [OF s Suc.prems(2)] Suc.IH [OF l] show ?case
    by simp
qed

lemma chain_loop_succeeds:
  assumes "0 \<le> sigmaprop" and "0 \<le> D" and "\<forall>x. \<exists>p. P x = Inr p \<and> 0 \<le> p"
    and "paramrange \<noteq> []"
  shows "length (st_oldsamp st) = nat D \<Longrightarrow>
         \<exists>st' g'. chain_loop rs paramrange sigmaprop D P n st g = Inr (st', g')"
proof (induction n arbitrary: st g)
  case 0
  then show ?case by simp
next
  case (Suc n)
  from chain_step_succeeds [OF assms(1,2) Suc.prems assms(3,4), where rs = rs and g = g]
  obtain st1 g1 where
    s: "chain_step rs paramrange sigmaprop D P st g = Inr (st1, g1)"
    by blast
  from chain_step_shape(1) [OF s Suc.prems] have "length (st_oldsamp st1) = nat D" .
  from Suc.IH [OF this, of g1] s show ?case
    by (simp add: bindE_Inr)
qed

lemma initial_draws_succeeds:
  "\<forall>d \<in> set ds. d < length paramrange \<Longrightarrow>
   \<exists>xs g'. initial_draws rs paramrange ds g = Inr (xs, g')"
proof (induction ds arbitrary: g)
  case Nil
  then show ?case by simp
next
  case (Cons d ds)
  obtain x g1 where u: "uniform rs (fst (paramrange ! d)) (snd (paramrange ! d)) g = (x, g1)"
    by (cases "uniform rs (fst (paramrange ! d)) (snd (paramrange ! d)) g")
  from Cons obtain xs g2 where "initial_draws rs paramrange ds g1 = Inr (xs, g2)"
    by fastforce
  with u Cons.prems show ?case
    by (simp add: bindE_Inr)
qed

lemma initial_draws_length:
  "initial_draws rs paramrange ds g = Inr (xs, g') \<Longrightarrow>
   length xs = length ds \<and> (\<forall>d \<in> set ds. d < length paramrange)"
proof (induction ds arbitrary: g xs)
  case Nil
  then show ?case by simp
next
  case (Cons d ds)
  then show ?case
    by (fastforce simp: bindE_eq_Inr split: if_splits prod.splits)
qed

subsection \<open>The bounds invariant\<close>

lemma uniform_within:
  assumes "uniform rs low high g = (x, g')" and "low \<le> high"
    and "0 \<le> fst (random_sample rs g)" and "fst (random_sample rs g) < 1"
  shows "low \<le> x \<and> x \<le> high"
proof -
  let ?u = "fst (random_sample rs g)"
  from assms(1) have x: "x = low + (high - low) * ?u"
    by (auto simp: uniform_def split: prod.splits)
  from assms(2,3) have "0 \<le> (high - low) * ?u"
    by simp
  moreover from assms(2,3,4) have "(high - low) * ?u \<le> high - low"
    by (intro mult_right_le_one_le) simp_all
  ultimately show ?thesis
    using x by simp
qed

lemma initial_draws_within:
  assumes "\<forall>g. 0 \<le> fst (random_sample rs g) \<and> fst (random_sample rs g) < 1"
    and "\<forall>r \<in> set paramrange. fst r \<le> snd r"
  shows "initial_draws rs paramrange ds g = Inr (xs, g') \<Longrightarrow> i < length ds \<Longrightarrow>
         fst (paramrange ! (ds ! i)) \<le> xs ! i \<and> xs ! i \<le> snd (paramrange ! (ds ! i))"
proof (induction ds arbitrary: g xs i)
  case Nil
  then show ?case by simp
next
  case (Cons d ds)
  from Cons.prems(1) obtain x g1 ys where
    d: "d < length paramrange" and
    u: "uniform rs (fst (paramrange ! d)) (snd (paramrange ! d)) g = (x, g1)" and
    r: "initial_draws rs paramrange ds g1 = Inr (ys, g')" and
    xs: "xs = x # ys"
    by (auto simp: bindE_eq_Inr split: if_splits prod.splits)
  from d assms(2) have "fst (paramrange ! d) \<le> snd (paramrange ! d)"
    by simp
  from uniform_within [OF u this] assms(1)
  have x: "fst (paramrange ! d) \<le> x \<and> x \<le> snd (paramrange ! d)"
    by simp
  show ?case
  proof (cases i)
    case 0
    with x xs show ?thesis by simp
  next
    case (Suc j)
    with Cons.prems(2) have "j < length ds" by simp
    from Cons.IH [OF r this] Suc xs show ?thesis by simp
  qed
qed

lemma chain_step_within:
  assumes "chain_step rs paramrange sigmaprop D P st g = Inr (st', g')"
    and "nat D \<le> length paramrange"
    and "within_bounds D paramrange (st_oldsamp st)"
    and "\<forall>s \<in> set (st_samples st). within_bounds D paramrange s"
  shows "within_bounds D paramrange (st_oldsamp st') \<and>
         (\<forall>s \<in> set (st_samples st'). within_bounds D paramrange s)"
proof -
  from assms(1) obtain newsamp g1 acc s where
    pr: "proposal rs (st_oldsamp st) sigmaprop D g = Inr (newsamp, g1)" and
    ac: "accept rs newsamp (st_oldsamp st) paramrange P g1 = Inr ((acc, s), g')" and
    st': "st' = \<lparr>st_oldsamp = s,
               st_count = (if acc then st_count st + 1 else st_count st),
               st_samples = st_samples st @ [s]\<rparr>"
    unfolding chain_step_eq_Inr by blast
  from assms(3) have lo: "length (st_oldsamp st) = nat D"
    by (simp add: within_bounds_def)
  with pr have ln: "length newsamp = nat D"
    by (simp add: proposal_length)
  from ln lo have "length newsamp = length (st_oldsamp st)"
    by simp
  from accept_cases [OF ac this] have "within_bounds D paramrange s"
  proof (elim disjE conjE)
    assume "s = newsamp" and "in_range newsamp paramrange"
    with ln assms(2) show ?thesis
      unfolding in_range_nth within_bounds_def by (simp add: less_imp_le)
  next
    assume "s = st_oldsamp st"
    with assms(3) show ?thesis by simp
  qed
  with st' assms(4) show ?thesis by simp
qed

lemma chain_loop_within:
  assumes "nat D \<le> length paramrange"
  shows "chain_loop rs paramrange sigmaprop D P n st g = Inr (st', g') \<Longrightarrow>
         within_bounds D paramrange (st_oldsamp st) \<Longrightarrow>
         \<forall>s \<in> set (st_samples st). within_bounds D paramrange s \<Longrightarrow>
         \<forall>s \<in> set (st_samples st'). within_bounds D paramrange s"
proof (induction n arbitrary: st g)
  case 0
  then show ?case by simp
next
  case (Suc n)
  from Suc.prems(1) obtain st1 g1 where
    s: "chain_step rs paramrange sigmaprop D P st g = Inr (st1, g1)" and
    l: "chain_loop rs paramrange sigmaprop D P n st1 g1 = Inr (st', g')"
    by (auto simp: bindE_eq_Inr)
  from chain_step_within [OF s assms Suc.prems(2,3)] Suc.IH [OF l] show ?case
    by blast
qed

subsection \<open>The acceptance counter\<close>

lemma chain_loop_count:
  "chain_loop rs paramrange sigmaprop D P n st g = Inr (st', g') \<Longrightarrow>
   \<exists>h. accept_history rs paramrange sigmaprop D P n (st_oldsamp st) g = Inr h \<and>
       length h = n \<and> st_count st' = st_count st + accepted h"
proof (induction n arbitrary: st g)
  case 0
  then show ?case by (simp add: accepted_def)
next
  case (Suc n)
  from Suc.prems obtain st1 g1 where
    s: "chain_step rs paramrange sigmaprop D P st g = Inr (st1, g1)" and
    l: "chain_loop rs paramrange sigmaprop D P n st1 g1 = Inr (st', g')"
    by (auto simp: bindE_eq_Inr)
  from s obtain newsamp g0 acc x where
    pr: "proposal rs (st_oldsamp st) sigmaprop D g = Inr (newsamp, g0)" and
    ac: "accept rs newsamp (st_oldsamp st) paramrange P g0 = Inr ((acc, x), g1)" and
    st1: "st1 = \<lparr>st_oldsamp = x,
               st_count = (if acc then st_count st + 1 else st_count st),
               st_samples = st_samples st @ [x]\<rparr>"
    unfolding chain_step_eq_Inr by blast
  from Suc.IH [OF l] obtain h where
    h: "accept_history rs paramrange sigmaprop D P n (st_oldsamp st1) g1 = Inr h"
    "length h = n" "st_count st' = st_count st1 + accepted h"
    by blast
  from pr ac h st1 show ?case
    by (simp add: bindE_Inr accepted_def)
qed

subsection \<open>Runs on sources that deliver the same variates\<close>

lemma rel_result_bindE:
  assumes "rel_result R m m'"
    and "\<And>a g h. R g h \<Longrightarrow> rel_sum (=) Q (f (a, g)) (f' (a, h))"
  shows "rel_sum (=) Q (bindE m f) (bindE m' f')"
  using assms by (cases m; cases m') (auto simp: bindE_def)

lemma rel_pure_bindE:
  assumes "\<And>a. rel_sum (=) Q (f a) (f' a)"
  shows "rel_sum (=) Q (bindE m f) (bindE m f')"
  using assms by (cases m) (auto simp: bindE_def)

lemma rel_result_outputs:
  "rel_result R x y \<Longrightarrow> map_sum id fst x = map_sum id fst y"
  by (cases x; cases y) auto

lemma sim_random_sample:
  "same_draws R rs1 rs2 \<Longrightarrow> R g h \<Longrightarrow>
   rel_prod (=) R (random_sample rs1 g) (random_sample rs2 h)"
  by (simp add: same_draws_def rel_prod_sel)

lemma sim_standard_normal:
  "same_draws R rs1 rs2 \<Longrightarrow> R g h \<Longrightarrow>
   rel_prod (=) R (standard_normal rs1 g) (standard_normal rs2 h)"
  by (simp add: same_draws_def rel_prod_sel)

lemma sim_uniform:
  assumes "same_draws R rs1 rs2" and "R g h"
  shows "rel_prod (=) R (uniform rs1 low high g) (uniform rs2 low high h)"
  using sim_random_sample [OF assms]
  by (auto simp: uniform_def rel_prod_sel split: prod.splits)

lemma sim_normal_draws:
  assumes "same_draws R rs1 rs2"
  shows "R g h \<Longrightarrow>
         rel_prod (=) R (normal_draws rs1 loc scale n g) (normal_draws rs2 loc scale n h)"
proof (induction n arbitrary: g h)
  case 0
  then show ?case by simp
next
  case (Suc n)
  obtain z g1 where a: "standard_normal rs1 g = (z, g1)"
    by (cases "standard_normal rs1 g")
  obtain z' h1 where b: "standard_normal rs2 h = (z', h1)"
    by (cases "standard_normal rs2 h")
  from sim_standard_normal [OF assms Suc.prems] a b have zz: "z' = z" "R g1 h1"
    by simp_all
  from Suc.IH [OF zz(2)] a b zz(1) show ?case
    by (auto simp: rel_prod_sel split: prod.splits)
qed

lemma sim_normal:
  assumes "same_draws R rs1 rs2" and "R g h"
  shows "rel_result R (normal rs1 loc scale n g) (normal rs2 loc scale n h)"
  using sim_normal_draws [OF assms]
  by (simp add: normal_def)

lemma sim_choice:
  assumes "same_draws R rs1 rs2" and "R g h"
  shows "rel_result R (choice rs1 prob g) (choice rs2 prob h)"
  using sim_random_sample [OF assms]
  by (auto simp: choice_def rel_prod_sel split: prod.splits)

lemma sim_proposal:
  assumes "same_draws R rs1 rs2" and "R g h"
  shows "rel_result R (proposal rs1 oldsamp sigmaprop D g) (proposal rs2 oldsamp sigmaprop D h)"
  unfolding proposal_def
proof (rule rel_result_bindE [OF sim_normal [OF assms]])
  fix eps g' h' assume "R g' h'"
  then show "rel_result R
      (case (eps, g') of (eps, g') \<Rightarrow> bindE (add_arrays oldsamp eps) (\<lambda>newsamp. Inr (newsamp, g')))
      (case (eps, h') of (eps, g') \<Rightarrow> bindE (add_arrays oldsamp eps) (\<lambda>newsamp. Inr (newsamp, g')))"
    by (cases "add_arrays oldsamp eps") (simp_all add: bindE_def)
qed

lemma sim_accept:
  assumes "same_draws R rs1 rs2" and "R g h"
  shows "rel_result R (accept rs1 newsamp oldsamp paramrange P g)
           (accept rs2 newsamp oldsamp paramrange P h)"
proof (cases "paramrange = [] \<or> \<not> in_range newsamp paramrange")
  case True
  with assms(2) show ?thesis by (auto simp: accept_def)
next
  case False
  have "rel_result R
      (bindE (choice rs1 prob g) (\<lambda>(acc, g').
         bindE (add_arrays (scale_array (of_bool acc) newsamp)
                  (scale_array (1 - of_bool acc) oldsamp)) (\<lambda>s. Inr ((acc, s), g'))))
      (bindE (choice rs2 prob h) (\<lambda>(acc, g').
         bindE (add_arrays (scale_array (of_bool acc) newsamp)
                  (scale_array (1 - of_bool acc) oldsamp)) (\<lambda>s. Inr ((acc, s), g'))))"
    for prob
  proof (rule rel_result_bindE [OF sim_choice [OF assms]])
    fix acc :: bool and g' h' assume "R g' h'"
    then show "rel_result R
        (case (acc, g') of (acc, g') \<Rightarrow>
           bindE (add_arrays (scale_array (of_bool acc) newsamp)
                    (scale_array (1 - of_bool acc) oldsamp)) (\<lambda>s. Inr ((acc, s), g')))
        (case (acc, h') of (acc, g') \<Rightarrow>
           bindE (add_arrays (scale_array (of_bool acc) newsamp)
                    (scale_array (1 - of_bool acc) oldsamp)) (\<lambda>s. Inr ((acc, s), g')))"
      by (cases "add_arrays (scale_array (of_bool acc) newsamp)
                    (scale_array (1 - of_bool acc) oldsamp)") (simp_all add: bindE_def)
  qed
  then have inner: "rel_result R
      (bindE (true_divide newprob oldprob) (\<lambda>prob.
         bindE (choice rs1 prob g) (\<lambda>(acc, g').
         bindE (add_arrays (scale_array (of_bool acc) newsamp)
                  (scale_array (1 - of_bool acc) oldsamp)) (\<lambda>s. Inr ((acc, s), g')))))
      (bindE (true_divide newprob oldprob) (\<lambda>prob.
         bindE (choice rs2 prob h) (\<lambda>(acc, g').
         bindE (add_arrays (scale_array (of_bool acc) newsamp)
                  (scale_array (1 - of_bool acc) oldsamp)) (\<lambda>s. Inr ((acc, s), g')))))"
    for newprob oldprob
    by (rule rel_pure_bindE)
  show ?thesis
    unfolding accept_def using False assms(2) inner
    by (auto intro!: rel_pure_bindE)
qed

lemma sim_initial_draws:
  assumes "same_draws R rs1 rs2"
  shows "R g h \<Longrightarrow>
         rel_result R (initial_draws rs1 paramrange ds g) (initial_draws rs2 paramrange ds h)"
proof (induction ds arbitrary: g h)
  case Nil
  then show ?case by simp
next
  case (Cons d ds)
  let ?lo = "fst (paramrange ! d)" and ?hi = "snd (paramrange ! d)"
  obtain x g1 where a: "uniform rs1 ?lo ?hi g = (x, g1)"
    by (cases "uniform rs1 ?lo ?hi g")
  obtain x' h1 where b: "uniform rs2 ?lo ?hi h = (x', h1)"
    by (cases "uniform rs2 ?lo ?hi h")
  from sim_uniform [OF assms Cons.prems, of ?lo ?hi] a b have xx: "x' = x" "R g1 h1"
    by simp_all
  have "rel_result R
      (bindE (initial_draws rs1 paramrange ds g1) (\<lambda>(xs, g2). Inr (x # xs, g2)))
      (bindE (initial_draws rs2 paramrange ds h1) (\<lambda>(xs, g2). Inr (x # xs, g2)))"
    by (rule rel_result_bindE [OF Cons.IH [OF xx(2)]]) simp
  with a b xx(1) show ?case
    by simp
qed

lemma sim_chain_step:
  assumes "same_draws R rs1 rs2" and "R g h"
  shows "rel_result R (chain_step rs1 paramrange sigmaprop D P st g)
           (chain_step rs2 paramrange sigmaprop D P st h)"
  unfolding chain_step_def
proof (rule rel_result_bindE [OF sim_proposal [OF assms]])
  fix newsamp g1 h1 assume r: "R g1 h1"
  have "rel_result R
      (bindE (accept rs1 newsamp (st_oldsamp st) paramrange P g1) (\<lambda>((acc, newsamp'), g2).
         Inr (\<lparr>st_oldsamp = newsamp',
               st_count = (if acc then st_count st + 1 else st_count st),
               st_samples = st_samples st @ [newsamp']\<rparr>, g2)))
      (bindE (accept rs2 newsamp (st_oldsamp st) paramrange P h1) (\<lambda>((acc, newsamp'), g2).
         Inr (\<lparr>st_oldsamp = newsamp',
               st_count = (if acc then st_count st + 1 else st_count st),
               st_samples = st_samples st @ [newsamp']\<rparr>, g2)))"
    by (rule rel_result_bindE [OF sim_accept [OF assms(1) r]]) (simp split: prod.splits)
  then show "rel_result R
      (case (newsamp, g1) of (newsamp, g1) \<Rightarrow>
         bindE (accept rs1 newsamp (st_oldsamp st) paramrange P g1) (\<lambda>((acc, newsamp'), g2).
         Inr (\<lparr>st_oldsamp = newsamp',
               st_count = (if acc then st_count st + 1 else st_count st),
               st_samples = st_samples st @ [newsamp']\<rparr>, g2)))
      (case (newsamp, h1) of (newsamp, g1) \<Rightarrow>
         bindE (accept rs2 newsamp (st_oldsamp st) paramrange P g1) (\<lambda>((acc, newsamp'), g2).
         Inr (\<lparr>st_oldsamp = newsamp',
               st_count = (if acc then st_count st + 1 else st_count st),
               st_samples = st_samples st @ [newsamp']\<rparr>, g2)))"
    by simp
qed

lemma sim_chain_loop:
  assumes "same_draws R rs1 rs2"
  shows "R g h \<Longrightarrow>
         rel_result R (chain_loop rs1 paramrange sigmaprop D P n st g)
           (chain_loop rs2 paramrange sigmaprop D P n st h)"
proof (induction n arbitrary: st g h)
  case 0
  then show ?case by simp
next
  case (Suc n)
  show ?case
    unfolding chain_loop.simps
    by (rule rel_result_bindE [OF sim_chain_step [OF assms Suc.prems]]) (simp add: Suc.IH)
qed

lemma sim_run_chain:
  assumes "same_draws R rs1 rs2" and "R g h"
  shows "rel_result R (run_chain rs1 steps paramrange sigmaprop D P g)
           (run_chain rs2 steps paramrange sigmaprop D P h)"
  unfolding run_chain_def
proof (rule rel_result_bindE [OF sim_initial_draws [OF assms]])
  fix oldsamp g1 h1 assume r: "R g1 h1"
  let ?st = "\<lparr>st_oldsamp = oldsamp, st_count = 0, st_samples = [oldsamp]\<rparr>"
  have "rel_result R
      (bindE (chain_loop rs1 paramrange sigmaprop D P (nat steps) ?st g1) (\<lambda>(st, g2).
         bindE (true_divide (1 * real (st_count st)) (real_of_int steps)) (\<lambda>ar.
         Inr ((st_samples st, ar), g2))))
      (bindE (chain_loop rs2 paramrange sigmaprop D P (nat steps) ?st h1) (\<lambda>(st, g2).
         bindE (true_divide (1 * real (st_count st)) (real_of_int steps)) (\<lambda>ar.
         Inr ((st_samples st, ar), g2))))"
  proof (rule rel_result_bindE [OF sim_chain_loop [OF assms(1) r]])
    fix st g2 h2 assume "R g2 h2"
    then show "rel_result R
        (case (st, g2) of (st, g2) \<Rightarrow>
           bindE (true_divide (1 * real (st_count st)) (real_of_int steps)) (\<lambda>ar.
           Inr ((st_samples st, ar), g2)))
        (case (st, h2) of (st, g2) \<Rightarrow>
           bindE (true_divide (1 * real (st_count st)) (real_of_int steps)) (\<lambda>ar.
           Inr ((st_samples st, ar), g2)))"
      by (simp add: true_divide_def bindE_def)
  qed
  then show "rel_result R
      (case (oldsamp, g1) of (oldsamp, g1) \<Rightarrow>
         bindE (chain_loop rs1 paramrange sigmaprop D P (nat steps)
                  \<lparr>st_oldsamp = oldsamp, st_count = 0, st_samples = [oldsamp]\<rparr> g1) (\<lambda>(st, g2).
         bindE (true_divide (1 * real (st_count st)) (real_of_int steps)) (\<lambda>ar.
         Inr ((st_samples st, ar), g2))))
      (case (oldsamp, h1) of (oldsamp, g1) \<Rightarrow>
         bindE (chain_loop rs2 paramrange sigmaprop D P (nat steps)
                  \<lparr>st_oldsamp = oldsamp, st_count = 0, st_samples = [oldsamp]\<rparr> g1) (\<lambda>(st, g2).
         bindE (true_divide (1 * real (st_count st)) (real_of_int steps)) (\<lambda>ar.
         Inr ((st_samples st, ar), g2))))"
    by simp
qed

subsection \<open>Runs on a recording source\<close>

lemma add_log_simps:
  "add_log l ds (Inl e) = Inl e"
  "add_log l ds (Inr (a, g')) = Inr (a, (g', l @ ds))"
  by (simp_all add: add_log_def)

lemma logged_random_sample:
  "random_sample (logged rs) (g, l) =
     (case random_sample rs g of (u, g') \<Rightarrow> (u, (g', l @ [Uniform_draw])))"
  by (simp add: logged_def)

lemma logged_standard_normal:
  "standard_normal (logged rs) (g, l) =
     (case standard_normal rs g of (z, g') \<Rightarrow> (z, (g', l @ [Normal_draw])))"
  by (simp add: logged_def)

lemma logged_uniform:
  "uniform (logged rs) low high (g, l) =
     (case uniform rs low high g of (x, g') \<Rightarrow> (x, (g', l @ [Uniform_draw])))"
  by (simp add: uniform_def logged_random_sample split: prod.splits)

lemma logged_normal_draws:
  "normal_draws (logged rs) loc scale n (g, l) =
     (case normal_draws rs loc scale n g of (zs, g') \<Rightarrow> (zs, (g', l @ replicate n Normal_draw)))"
proof (induction n arbitrary: g l)
  case 0
  then show ?case by simp
next
  case (Suc n)
  then show ?case
    by (simp add: logged_standard_normal replicate_app_Cons_same split: prod.splits)
qed

lemma logged_normal:
  "normal (logged rs) loc scale D (g, l) =
     add_log l (replicate (nat D) Normal_draw) (normal rs loc scale D g)"
  by (simp add: normal_def logged_normal_draws add_log_def split: prod.splits)

lemma logged_choice:
  "choice (logged rs) prob (g, l) = add_log l [Uniform_draw] (choice rs prob g)"
  by (simp add: choice_def logged_random_sample add_log_def split: prod.splits)

lemma logged_proposal:
  "proposal (logged rs) oldsamp sigmaprop D (g, l) =
     add_log l (replicate (nat D) Normal_draw) (proposal rs oldsamp sigmaprop D g)"
  by (cases "normal rs 0 sigmaprop D g")
    (auto simp: proposal_def logged_normal add_log_def bindE_def split: sum.splits)

lemma logged_accept:
  "accept (logged rs) newsamp oldsamp paramrange P (g, l) =
     (case accept rs newsamp oldsamp paramrange P g of
        Inl e \<Rightarrow> Inl e
      | Inr ((acc, s), g') \<Rightarrow>
          Inr ((acc, s),
               (g', l @ (if acceptance_draw paramrange P (newsamp, oldsamp, acc)
                         then [Uniform_draw] else []))))"
  by (auto simp: accept_def acceptance_draw_def logged_choice add_log_def bindE_def
      split: sum.splits prod.splits)

lemma logged_initial_draws:
  "initial_draws (logged rs) paramrange ds (g, l) =
     add_log l (replicate (length ds) Uniform_draw) (initial_draws rs paramrange ds g)"
proof (induction ds arbitrary: g l)
  case Nil
  then show ?case by (simp add: add_log_def)
next
  case (Cons d ds)
  then show ?case
    by (auto simp: logged_uniform add_log_def bindE_def replicate_app_Cons_same
        split: prod.splits sum.splits)
qed

lemma recorded_chain_loop:
  "chain_loop rs paramrange sigmaprop D P n st g = Inr (st', g') \<Longrightarrow>
   \<exists>h. accept_history rs paramrange sigmaprop D P n (st_oldsamp st) g = Inr h \<and>
       chain_loop (logged rs) paramrange sigmaprop D P n st (g, l) =
         Inr (st', (g', l @ concat (map (step_draws D paramrange P) h)))"
proof (induction n arbitrary: st g l)
  case 0
  then show ?case by simp
next
  case (Suc n)
  from Suc.prems obtain st1 g1 where
    s: "chain_step rs paramrange sigmaprop D P st g = Inr (st1, g1)" and
    r: "chain_loop rs paramrange sigmaprop D P n st1 g1 = Inr (st', g')"
    by (auto simp: bindE_eq_Inr)
  from s obtain newsamp g0 acc x where
    pr: "proposal rs (st_oldsamp st) sigmaprop D g = Inr (newsamp, g0)" and
    ac: "accept rs newsamp (st_oldsamp st) paramrange P g0 = Inr ((acc, x), g1)" and
    st1: "st1 = \<lparr>st_oldsamp = x,
               st_count = (if acc then st_count st + 1 else st_count st),
               st_samples = st_samples st @ [x]\<rparr>"
    unfolding chain_step_eq_Inr by auto
  let ?c = "(newsamp, st_oldsamp st, acc)"
  let ?l1 = "l @ step_draws D paramrange P ?c"
  from pr ac st1
  have s': "chain_step (logged rs) paramrange sigmaprop D P st (g, l) = Inr (st1, (g1, ?l1))"
    by (simp add: chain_step_def logged_proposal logged_accept add_log_simps bindE_Inr
        step_draws_def)
  from Suc.IH [OF r, of ?l1] obtain h where
    h: "accept_history rs paramrange sigmaprop D P n (st_oldsamp st1) g1 = Inr h" and
    c: "chain_loop (logged rs) paramrange sigmaprop D P n st1 (g1, ?l1) =
          Inr (st', (g', ?l1 @ concat (map (step_draws D paramrange P) h)))"
    by blast
  from pr ac st1 h
  have "accept_history rs paramrange sigmaprop D P (Suc n) (st_oldsamp st) g = Inr (?c # h)"
    by (simp add: bindE_Inr)
  moreover from s' c
  have "chain_loop (logged rs) paramrange sigmaprop D P (Suc n) st (g, l) =
          Inr (st', (g', l @ concat (map (step_draws D paramrange P) (?c # h))))"
    by (simp add: bindE_Inr)
  ultimately show ?case
    by blast
qed

lemma recorded_run_chain:
  assumes "run_chain rs steps paramrange sigmaprop D P g = Inr (out, g')"
  shows "\<exists>h. run_history rs steps paramrange sigmaprop D P g = Inr h \<and>
             run_chain (logged rs) steps paramrange sigmaprop D P (g, []) =
               Inr (out, (g', run_draws D paramrange P h))"
proof -
  from assms obtain oldsamp g1 st ar where
    i: "initial_draws rs paramrange [0..<nat D] g = Inr (oldsamp, g1)" and
    c: "chain_loop rs paramrange sigmaprop D P (nat steps)
          \<lparr>st_oldsamp = oldsamp, st_count = 0, st_samples = [oldsamp]\<rparr> g1 = Inr (st, g')" and
    d: "true_divide (1 * real (st_count st)) (real_of_int steps) = Inr ar" and
    out: "out = (st_samples st, ar)"
    by (auto simp: run_chain_def bindE_eq_Inr)
  let ?l1 = "replicate (nat D) Uniform_draw"
  from i have i': "initial_draws (logged rs) paramrange [0..<nat D] (g, []) = Inr (oldsamp, (g1, ?l1))"
    by (simp add: logged_initial_draws add_log_simps)
  from recorded_chain_loop [OF c, of ?l1] obtain h where
    h: "accept_history rs paramrange sigmaprop D P (nat steps) oldsamp g1 = Inr h" and
    c': "chain_loop (logged rs) paramrange sigmaprop D P (nat steps)
          \<lparr>st_oldsamp = oldsamp, st_count = 0, st_samples = [oldsamp]\<rparr> (g1, ?l1) =
          Inr (st, (g', ?l1 @ concat (map (step_draws D paramrange P) h)))"
    by auto
  from i h have "run_history rs steps paramrange sigmaprop D P g = Inr h"
    by (simp add: run_history_def bindE_Inr)
  moreover from i' c' d out
  have "run_chain (logged rs) steps paramrange sigmaprop D P (g, []) =
          Inr (out, (g', run_draws D paramrange P h))"
    by (simp add: run_chain_def bindE_Inr run_draws_def)
  ultimately show ?thesis
    by blast
qed

lemma same_draws_logged: "same_draws (\<lambda>g h. g = fst h) rs (logged rs)"
  by (simp add: same_draws_def logged_def split: prod.splits)

subsection \<open>A run on the notebook's generator\<close>

lemma lcg_unit_interval: "0 \<le> fst (rng g) \<and> fst (rng g) < 1"
  by (simp add: rng_def Let_def)

lemmas run_defs = run_chain_def chain_step_def proposal_def accept_def in_range_def
  normal_def choice_def uniform_def add_arrays_def scale_array_def true_divide_def bindE_def
  lcg_source_def rng_def

lemma run_chain_example:
  "run_chain lcg_source 2 [(- 10, 10), (0, 1)] 1 2 bump 7 =
     Inr (([[1602710145 / 268435456, 642666333 / 4294967296],
            [1602710145 / 268435456, 642666333 / 4294967296],
            [1600773269 / 268435456, 1083791375 / 4294967296]], 1 / 2), 2368046169)"
  by (simp add: run_defs bump_def eval_nat_numeral upt_rec)

lemma run_chain_example_1d:
  "run_chain lcg_source 3 [(- 10, 10)] 1 1 bump 101 =
     Inr (([[4833465105 / 536870912], [19837373999 / 2147483648],
            [1305852097 / 134217728], [20223450583 / 2147483648]], 1), 1477300679)"
  by (simp add: run_defs bump_def eval_nat_numeral upt_rec)

lemma run_history_example_1d:
  "run_history lcg_source 3 [(- 10, 10)] 1 1 bump 101 =
     Inr [([19837373999 / 2147483648], [4833465105 / 536870912], True),
          ([1305852097 / 134217728], [19837373999 / 2147483648], True),
          ([20223450583 / 2147483648], [1305852097 / 134217728], True)]"
  by (simp add: run_history_def run_defs bump_def eval_nat_numeral upt_rec)

lemma run_draws_example_1d:
  "run_draws 1 [(- 10, 10)] bump
     [([19837373999 / 2147483648], [4833465105 / 536870912], True),
      ([1305852097 / 134217728], [19837373999 / 2147483648], True),
      ([20223450583 / 2147483648], [1305852097 / 134217728], True)] =
   [Uniform_draw, Normal_draw, Uniform_draw, Normal_draw, Uniform_draw, Normal_draw]"
  by (simp add: run_draws_def step_draws_def acceptance_draw_def in_range_def bump_def)

section \<open>The acceptance rule\<close>

text \<open>
  Claim C5. For a range of at least one row and an in-range candidate whose density is at
  least the density of the current state, \<open>accept\<close> returns \<open>(True, newsamp)\<close>. It draws no
  random variate: the generator state comes back unchanged, whatever the random source
  is.
\<close>

theorem accept_higher_density:
  assumes "paramrange \<noteq> []" and "in_range newsamp paramrange"
    and "P newsamp = Inr newprob" and "P oldsamp = Inr oldprob"
    and "oldprob \<le> newprob"
  shows "accept rs newsamp oldsamp paramrange P g = Inr ((True, newsamp), g)"
  using assms by (rule accept_ge)

theorem accept_higher_density_witness:
  "[(- 10 :: real, 10 :: real)] \<noteq> [] \<and>
   in_range [0] [(- 10, 10)] \<and> bump [0] = Inr 1 \<and> bump [3] = Inr (1 / 10) \<and>
   (1 / 10 :: real) \<le> 1 \<and>
   accept lcg_source [0] [3] [(- 10, 10)] bump 101 = Inr ((True, [0]), 101)"
  using accept_higher_density [of "[(- 10, 10)]" "[0]" bump 1 "[3]" "1 / 10" lcg_source 101]
  by (simp add: in_range_def bump_def)

text \<open>
  Claim C10. When the density of the current state is zero, every in-range candidate with
  a non-negative density is accepted, a candidate of density zero included (for a range of
  at least one row).
\<close>

theorem accept_from_zero_density:
  assumes "paramrange \<noteq> []" and "in_range newsamp paramrange"
    and "P oldsamp = Inr 0" and "P newsamp = Inr newprob" and "0 \<le> newprob"
  shows "accept rs newsamp oldsamp paramrange P g = Inr ((True, newsamp), g)"
  using assms(1,2,4,3,5) by (rule accept_ge)

theorem accept_from_zero_density_witness:
  "[(- 10 :: real, 10 :: real)] \<noteq> [] \<and>
   in_range [3] [(- 10, 10)] \<and> tent [2] = Inr 0 \<and> tent [3] = Inr 0 \<and> (0 :: real) \<le> 0 \<and>
   accept lcg_source [3] [2] [(- 10, 10)] tent 101 = Inr ((True, [3]), 101)"
  using accept_from_zero_density [of "[(- 10, 10)]" "[3]" tent "[2]" 0 lcg_source 101]
  by (simp add: in_range_def tent_def)

text \<open>
  Claim C4. For a range of at least one row and an in-range candidate with
  \<open>0 \<le> P newsamp < P oldsamp\<close>, the ratio
  \<open>P newsamp / P oldsamp\<close> is computed without error and lies in the half-open unit
  interval; \<open>accept\<close> draws exactly one uniform variate \<open>u\<close> (the generator advances by one
  \<open>random_sample\<close>), accepts if and only if \<open>u\<close> is below the ratio, and on rejection returns
  \<open>(False, oldsamp)\<close>.
\<close>

theorem accept_lower_density:
  assumes "paramrange \<noteq> []" and "in_range newsamp paramrange"
    and "P newsamp = Inr newprob" and "P oldsamp = Inr oldprob"
    and "0 \<le> newprob" and "newprob < oldprob"
    and "length newsamp = length oldsamp"
    and "random_sample rs g = (u, g')"
  shows "0 \<le> newprob / oldprob \<and> newprob / oldprob < 1 \<and>
         true_divide newprob oldprob = Inr (newprob / oldprob) \<and>
         accept rs newsamp oldsamp paramrange P g =
           Inr ((u < newprob / oldprob, if u < newprob / oldprob then newsamp else oldsamp), g')"
proof -
  from assms(5,6) have "0 < oldprob" by simp
  with assms(5,6) have "0 \<le> newprob / oldprob" "newprob / oldprob < 1"
    "true_divide newprob oldprob = Inr (newprob / oldprob)"
    by (simp_all add: true_divide_def)
  with accept_less [OF assms] show ?thesis by simp
qed

theorem accept_lower_density_witness:
  "[(- 10 :: real, 10 :: real)] \<noteq> [] \<and>
   in_range [1] [(- 10, 10)] \<and> bump [1] = Inr (1 / 2) \<and> bump [0] = Inr 1 \<and>
   (0 :: real) \<le> 1 / 2 \<and> (1 / 2 :: real) < 1 \<and> length [1 :: real] = length [0 :: real] \<and>
   random_sample lcg_source 101 = (2040434845 / 2147483648, 4080869690) \<and>
   accept lcg_source [1] [0] [(- 10, 10)] bump 101 = Inr ((False, [0]), 4080869690)"
proof -
  have r: "random_sample lcg_source 101 = (2040434845 / 2147483648, 4080869690)"
    by (simp add: lcg_source_def rng_def)
  have e: "[(- 10 :: real, 10 :: real)] \<noteq> []"
    by simp
  have i: "in_range [1] [(- 10, 10)]"
    by (simp add: in_range_def)
  have n: "bump [1] = Inr (1 / 2)" and b: "bump [0] = Inr 1"
    by (simp_all add: bump_def)
  from accept_lower_density [OF e i n b _ _ _ r] r i n b
  show ?thesis by simp
qed

text \<open>
  Claim C2. For a range of at least one row, an in-range candidate and non-negative
  densities, \<open>accept\<close> never fails with a division by zero: the division is reached only when \<open>P newsamp < P oldsamp\<close>, where the
  divisor is positive. When the density of the candidate is zero and that of the current
  state is positive, the ratio is zero, no variate of the unit interval is below it, and
  the candidate is rejected.
\<close>

theorem accept_no_zero_division:
  assumes "paramrange \<noteq> []" and "in_range newsamp paramrange"
    and "P newsamp = Inr newprob" and "P oldsamp = Inr oldprob"
    and "0 \<le> newprob" and "0 \<le> oldprob"
  shows "accept rs newsamp oldsamp paramrange P g \<noteq> Inl ZeroDivisionError \<and>
         (newprob < oldprob \<longrightarrow> true_divide newprob oldprob = Inr (newprob / oldprob)) \<and>
         (newprob = 0 \<longrightarrow> 0 < oldprob \<longrightarrow> length newsamp = length oldsamp \<longrightarrow>
          0 \<le> fst (random_sample rs g) \<longrightarrow>
            accept rs newsamp oldsamp paramrange P g =
              Inr ((False, oldsamp), snd (random_sample rs g)))"
proof (intro conjI impI)
  show "accept rs newsamp oldsamp paramrange P g \<noteq> Inl ZeroDivisionError"
  proof (cases "oldprob \<le> newprob")
    case True
    with assms show ?thesis by (simp add: accept_ge)
  next
    case False
    with assms(5) have "0 \<le> newprob / oldprob" "newprob / oldprob < 1" "oldprob \<noteq> 0"
      by simp_all
    with assms(1,2,3,4) False show ?thesis
      by (auto simp: accept_def bindE_def true_divide_def choice_def add_arrays_def
          split: prod.splits sum.splits)
  qed
next
  assume "newprob < oldprob"
  with assms(5) show "true_divide newprob oldprob = Inr (newprob / oldprob)"
    by (simp add: true_divide_def)
next
  assume z: "newprob = 0" "0 < oldprob" "length newsamp = length oldsamp"
    "0 \<le> fst (random_sample rs g)"
  have "random_sample rs g = (fst (random_sample rs g), snd (random_sample rs g))"
    by simp
  from accept_less [OF assms(1,2,3,4,5) _ z(3) this] z(1,2,4)
  show "accept rs newsamp oldsamp paramrange P g =
          Inr ((False, oldsamp), snd (random_sample rs g))"
    by (simp add: not_less)
qed

theorem accept_no_zero_division_witness:
  "[(- 10 :: real, 10 :: real)] \<noteq> [] \<and>
   in_range [2] [(- 10, 10)] \<and> tent [2] = Inr 0 \<and> tent [0] = Inr 1 \<and>
   (0 :: real) \<le> 0 \<and> (0 :: real) \<le> 1 \<and>
   accept lcg_source [2] [0] [(- 10, 10)] tent 101 \<noteq> Inl ZeroDivisionError \<and>
   (0 :: real) < 1 \<and> true_divide 0 1 = Inr (0 / 1) \<and>
   length [2 :: real] = length [0 :: real] \<and> 0 \<le> fst (random_sample lcg_source 101) \<and>
   accept lcg_source [2] [0] [(- 10, 10)] tent 101 = Inr ((False, [0]), 4080869690)"
proof -
  have r: "random_sample lcg_source 101 = (2040434845 / 2147483648, 4080869690)"
    by (simp add: lcg_source_def rng_def)
  have e: "[(- 10 :: real, 10 :: real)] \<noteq> []"
    by simp
  have i: "in_range [2] [(- 10, 10)]"
    by (simp add: in_range_def)
  have n: "tent [2] = Inr 0" and b: "tent [0] = Inr 1"
    by (simp_all add: tent_def)
  from accept_no_zero_division [OF e i n b, of lcg_source 101] r i n b
  show ?thesis by simp
qed

text \<open>
  Claim C3. A candidate with a component at or below \<open>low\<close>, or at or above \<open>high\<close>, is
  rejected: \<open>accept\<close> returns \<open>(False, oldsamp)\<close> for every density evaluator, even one
  that raises on every input, so the density is not evaluated, and no variate is drawn. In
  the driver such a step appends the previous state to the trace and leaves the acceptance
  counter as it was.
\<close>

theorem accept_out_of_range:
  assumes "d < length newsamp" and "d < length paramrange"
    and "newsamp ! d \<le> fst (paramrange ! d) \<or> snd (paramrange ! d) \<le> newsamp ! d"
  shows "accept rs newsamp oldsamp paramrange P g = Inr ((False, oldsamp), g) \<and>
         (proposal rs (st_oldsamp st) sigmaprop D g0 = Inr (newsamp, g) \<longrightarrow>
            chain_step rs paramrange sigmaprop D P st g0 =
              Inr (\<lparr>st_oldsamp = st_oldsamp st, st_count = st_count st,
                    st_samples = st_samples st @ [st_oldsamp st]\<rparr>, g))"
proof -
  from assms(2) have rows: "paramrange \<noteq> []"
    by auto
  from assms have "\<not> in_range newsamp paramrange"
    unfolding in_range_nth by (auto simp: not_less)
  with rows have a: "\<And>x. accept rs newsamp x paramrange P g = Inr ((False, x), g)"
    by (rule accept_reject_range)
  then show ?thesis
    by (simp add: chain_step_def bindE_Inr)
qed

theorem accept_out_of_range_witness:
  "(0 :: nat) < length [11167240349 / 1073741824 :: real] \<and>
   (0 :: nat) < length [(- 10 :: real, 10 :: real)] \<and>
   ([11167240349 / 1073741824] ! 0 \<le> fst ([(- 10 :: real, 10 :: real)] ! 0) \<or>
    snd ([(- 10 :: real, 10 :: real)] ! 0) \<le> [11167240349 / 1073741824] ! 0) \<and>
   accept lcg_source [11167240349 / 1073741824] [19 / 2] [(- 10, 10)]
     (\<lambda>x. Inl EvaluatorFailure) 4080869690 = Inr ((False, [19 / 2]), 4080869690) \<and>
   proposal lcg_source [19 / 2] 1 1 101 = Inr ([11167240349 / 1073741824], 4080869690) \<and>
   chain_step lcg_source [(- 10, 10)] 1 1 (\<lambda>x. Inl EvaluatorFailure)
     \<lparr>st_oldsamp = [19 / 2], st_count = 0, st_samples = [[19 / 2]]\<rparr> 101 =
     Inr (\<lparr>st_oldsamp = [19 / 2], st_count = 0, st_samples = [[19 / 2], [19 / 2]]\<rparr>,
          4080869690)"
proof -
  have p: "proposal lcg_source [19 / 2] 1 1 101 = Inr ([11167240349 / 1073741824], 4080869690)"
    by (simp add: proposal_def normal_def bindE_def add_arrays_def lcg_source_def rng_def)
  have b: "[11167240349 / 1073741824] ! 0 \<le> fst ([(- 10 :: real, 10 :: real)] ! 0) \<or>
    snd ([(- 10 :: real, 10 :: real)] ! 0) \<le> [11167240349 / 1073741824] ! 0"
    by simp
  from accept_out_of_range [of 0 "[11167240349 / 1073741824]" "[(- 10, 10)]", OF _ _ b,
      of lcg_source "[19 / 2]" "\<lambda>x. Inl EvaluatorFailure" 4080869690
        "\<lparr>st_oldsamp = [19 / 2], st_count = 0, st_samples = [[19 / 2]]\<rparr>" 1 1 101] p
  show ?thesis by simp
qed

text \<open>A candidate exactly on the upper bound, with a density that would accept anything.\<close>

lemma accept_at_upper_bound_example:
  "accept lcg_source [10] [0] [(- 10, 10)] flat 101 = Inr ((False, [0]), 101)"
  by (simp add: accept_def in_range_def)

section \<open>The chain driver\<close>

text \<open>
  Claim C9. With \<open>steps = 0\<close> the driver never returns: once the starting point is drawn,
  the acceptance ratio divides by the step count and the call ends in ZeroDivisionError
  (or, when \<^verbatim>\<open>paramrange\<close> has fewer than \<open>D\<close> rows, already in IndexError).
\<close>

theorem run_chain_zero_steps:
  "(\<forall>r. run_chain rs 0 paramrange sigmaprop D P g \<noteq> Inr r) \<and>
   (nat D \<le> length paramrange \<longrightarrow>
      run_chain rs 0 paramrange sigmaprop D P g = Inl ZeroDivisionError)"
proof (intro conjI impI allI)
  fix r
  show "run_chain rs 0 paramrange sigmaprop D P g \<noteq> Inr r"
    by (cases "initial_draws rs paramrange [0..<nat D] g")
      (auto simp: run_chain_def bindE_def true_divide_def)
next
  assume "nat D \<le> length paramrange"
  then have "\<forall>d \<in> set [0..<nat D]. d < length paramrange"
    by simp
  from initial_draws_succeeds [OF this, of rs g]
  show "run_chain rs 0 paramrange sigmaprop D P g = Inl ZeroDivisionError"
    by (auto simp: run_chain_def bindE_def true_divide_def)
qed

theorem run_chain_zero_steps_witness:
  "(\<forall>r. run_chain lcg_source 0 [(- 10, 10), (0, 1)] 1 2 bump 7 \<noteq> Inr r) \<and>
   nat 2 \<le> length [(- 10 :: real, 10 :: real), (0, 1)] \<and>
   run_chain lcg_source 0 [(- 10, 10), (0, 1)] 1 2 bump 7 = Inl ZeroDivisionError"
  using run_chain_zero_steps [of lcg_source "[(- 10, 10), (0, 1)]" 1 2 bump 7]
  by simp

text \<open>
  Claim C1, as stated for every \<open>N \<ge> 0\<close>, fails at \<open>N = 0\<close>: the run below returns no trace.
\<close>

theorem run_chain_no_steps_counterexample:
  "run_chain lcg_source 0 [(- 10, 10)] 1 1 bump 101 = Inl ZeroDivisionError"
  by (simp add: run_chain_def bindE_def true_divide_def uniform_def lcg_source_def rng_def)

text \<open>
  Claim C1, amended. For every step count \<open>N \<ge> 1\<close>, a \<^verbatim>\<open>paramrange\<close> of at least one row, a
  dimension \<open>D \<ge> 0\<close> with at least \<open>D\<close> rows in \<^verbatim>\<open>paramrange\<close>, a step size \<open>sigmaprop \<ge> 0\<close>
  and a density evaluator that returns a non-negative value on every input, \<open>run_chain\<close>
  returns, and its trace has \<open>N + 1\<close> entries.
\<close>

theorem run_chain_trace_length:
  assumes "1 \<le> steps" and "paramrange \<noteq> []" and "0 \<le> D" and "nat D \<le> length paramrange"
    and "0 \<le> sigmaprop" and "\<forall>x. \<exists>p. P x = Inr p \<and> 0 \<le> p"
  shows "\<exists>trace ar g'.
           run_chain rs steps paramrange sigmaprop D P g = Inr ((trace, ar), g') \<and>
           int (length trace) = steps + 1"
proof -
  from assms(4) have "\<forall>d \<in> set [0..<nat D]. d < length paramrange"
    by simp
  from initial_draws_succeeds [OF this, of rs g] obtain oldsamp g1 where
    i: "initial_draws rs paramrange [0..<nat D] g = Inr (oldsamp, g1)"
    by blast
  then have len: "length oldsamp = nat D"
    by (simp add: initial_draws_length)
  let ?st = "\<lparr>st_oldsamp = oldsamp, st_count = 0, st_samples = [oldsamp]\<rparr>"
  from len have len': "length (st_oldsamp ?st) = nat D"
    by simp
  from chain_loop_succeeds [OF assms(5,3,6,2) len', of rs "nat steps" g1]
  obtain st' g2 where
    l: "chain_loop rs paramrange sigmaprop D P (nat steps) ?st g1 = Inr (st', g2)"
    by blast
  from chain_loop_shape [OF l len'] have "length (st_samples st') = 1 + nat steps"
    by simp
  with assms(1) i l show ?thesis
    by (simp add: run_chain_def bindE_Inr true_divide_def)
qed

theorem run_chain_trace_length_witness:
  "(1 :: int) \<le> 3 \<and> [(- 10 :: real, 10 :: real), (0, 1)] \<noteq> [] \<and> (0 :: int) \<le> 2 \<and>
   nat 2 \<le> length [(- 10 :: real, 10 :: real), (0, 1)] \<and>
   (0 :: real) \<le> 1 \<and> (\<forall>x. \<exists>p. flat x = Inr p \<and> 0 \<le> p) \<and>
   (\<exists>trace ar g'.
      run_chain lcg_source 3 [(- 10, 10), (0, 1)] 1 2 flat 7 = Inr ((trace, ar), g') \<and>
      int (length trace) = 3 + 1)"
proof -
  have f: "\<forall>x. \<exists>p. flat x = Inr p \<and> 0 \<le> p"
    by (simp add: flat_def)
  from run_chain_trace_length [of 3 "[(- 10, 10), (0, 1)]" 2 1 flat lcg_source 7,
      OF _ _ _ _ _ f] f
  show ?thesis by simp
qed

text \<open>
  With no row in \<^verbatim>\<open>paramrange\<close> and \<open>D = 0\<close> the starting point is drawn, and the first call
  of \<open>accept\<close> raises IndexError.
\<close>

lemma run_chain_empty_range_example:
  "run_chain lcg_source 1 [] 1 0 flat 101 = Inl IndexError"
  by (simp add: run_defs)

text \<open>
  Claim C6. Every state of the trace of a run, the starting point and each later entry,
  has \<open>D\<close> components, each within the closed interval of its row of \<^verbatim>\<open>paramrange\<close>. The
  random source is assumed to deliver uniform variates in the half-open unit interval, and
  every row to have \<open>low \<le> high\<close>.
\<close>

theorem run_chain_in_bounds:
  assumes "run_chain rs steps paramrange sigmaprop D P g = Inr ((trace, ar), g')"
    and "\<forall>g. 0 \<le> fst (random_sample rs g) \<and> fst (random_sample rs g) < 1"
    and "\<forall>r \<in> set paramrange. fst r \<le> snd r"
  shows "\<forall>s \<in> set trace. within_bounds D paramrange s"
proof -
  from assms(1) obtain oldsamp g1 st where
    i: "initial_draws rs paramrange [0..<nat D] g = Inr (oldsamp, g1)" and
    l: "chain_loop rs paramrange sigmaprop D P (nat steps)
          \<lparr>st_oldsamp = oldsamp, st_count = 0, st_samples = [oldsamp]\<rparr> g1 = Inr (st, g')" and
    t: "trace = st_samples st"
    by (auto simp: run_chain_def bindE_eq_Inr)
  from initial_draws_length [OF i] have len: "length oldsamp = nat D"
    and below: "\<forall>d \<in> set [0..<nat D]. d < length paramrange"
    by simp_all
  have rows: "nat D \<le> length paramrange"
  proof (rule ccontr)
    assume "\<not> nat D \<le> length paramrange"
    then have "length paramrange \<in> set [0..<nat D]"
      by simp
    with below show False
      by blast
  qed
  have "within_bounds D paramrange oldsamp"
    unfolding within_bounds_def
  proof (intro conjI allI impI)
    show "length oldsamp = nat D" by (rule len)
  next
    fix d assume "d < nat D"
    with initial_draws_within [OF assms(2,3) i, of d]
    show "fst (paramrange ! d) \<le> oldsamp ! d" "oldsamp ! d \<le> snd (paramrange ! d)"
      by simp_all
  qed
  with chain_loop_within [OF rows l] t show ?thesis
    by simp
qed

theorem run_chain_in_bounds_witness:
  "run_chain lcg_source 2 [(- 10, 10), (0, 1)] 1 2 bump 7 =
     Inr (([[1602710145 / 268435456, 642666333 / 4294967296],
            [1602710145 / 268435456, 642666333 / 4294967296],
            [1600773269 / 268435456, 1083791375 / 4294967296]], 1 / 2), 2368046169) \<and>
   (\<forall>g. 0 \<le> fst (random_sample lcg_source g) \<and> fst (random_sample lcg_source g) < 1) \<and>
   list_all (\<lambda>r. fst r \<le> snd r) [(- 10 :: real, 10 :: real), (0, 1)] \<and>
   list_all (within_bounds 2 [(- 10, 10), (0, 1)])
     [[1602710145 / 268435456, 642666333 / 4294967296],
      [1602710145 / 268435456, 642666333 / 4294967296],
      [1600773269 / 268435456, 1083791375 / 4294967296]]"
proof -
  have u: "\<forall>g. 0 \<le> fst (random_sample lcg_source g) \<and> fst (random_sample lcg_source g) < 1"
    by (simp add: lcg_source_def lcg_unit_interval)
  have r: "\<forall>r \<in> set [(- 10 :: real, 10 :: real), (0, 1)]. fst r \<le> snd r"
    by simp
  from run_chain_in_bounds [OF run_chain_example u r] run_chain_example u
  show ?thesis by (simp add: list_all_iff)
qed

text \<open>
  Claim C7. For a run of \<open>N \<ge> 1\<close> steps the acceptance ratio returned is the number of
  steps whose \<open>accept\<close> call returned \<^verbatim>\<open>True\<close>, divided by \<open>N\<close>.
\<close>

theorem run_chain_acceptance_ratio:
  assumes "1 \<le> steps"
    and "run_chain rs steps paramrange sigmaprop D P g = Inr ((trace, ar), g')"
  shows "\<exists>h. run_history rs steps paramrange sigmaprop D P g = Inr h \<and>
             int (length h) = steps \<and>
             ar = real (accepted h) / real_of_int steps"
proof -
  from assms(2) obtain oldsamp g1 st where
    i: "initial_draws rs paramrange [0..<nat D] g = Inr (oldsamp, g1)" and
    l: "chain_loop rs paramrange sigmaprop D P (nat steps)
          \<lparr>st_oldsamp = oldsamp, st_count = 0, st_samples = [oldsamp]\<rparr> g1 = Inr (st, g')" and
    d: "true_divide (1 * real (st_count st)) (real_of_int steps) = Inr ar"
    by (auto simp: run_chain_def bindE_eq_Inr)
  from chain_loop_count [OF l] obtain h where
    h: "accept_history rs paramrange sigmaprop D P (nat steps) oldsamp g1 = Inr h"
    "length h = nat steps" "st_count st = accepted h"
    by auto
  from d assms(1) have "ar = real (st_count st) / real_of_int steps"
    by (simp add: true_divide_def)
  with h i assms(1) show ?thesis
    by (simp add: run_history_def bindE_Inr)
qed

theorem run_chain_acceptance_ratio_witness:
  "(1 :: int) \<le> 2 \<and>
   run_chain lcg_source 2 [(- 10, 10), (0, 1)] 1 2 bump 7 =
     Inr (([[1602710145 / 268435456, 642666333 / 4294967296],
            [1602710145 / 268435456, 642666333 / 4294967296],
            [1600773269 / 268435456, 1083791375 / 4294967296]], 1 / 2), 2368046169) \<and>
   (\<exists>h. run_history lcg_source 2 [(- 10, 10), (0, 1)] 1 2 bump 7 = Inr h \<and>
        int (length h) = 2 \<and> (1 / 2 :: real) = real (accepted h) / real_of_int 2)"
  using run_chain_acceptance_ratio [OF _ run_chain_example] run_chain_example
  by simp

text \<open>
  Claim C8. A run is a function of its arguments and of the variates the random source
  delivers: two runs with the same \<open>steps\<close>, \<^verbatim>\<open>paramrange\<close>, \<open>sigmaprop\<close>, \<open>D\<close> and \<open>P\<close>, on
  random sources that deliver the same variates call by call, return the same trace and
  the same acceptance ratio, or fail with the same error. Two runs from the same seed of
  one generator are the case where the two sources and their states are equal. The draws
  are made in a fixed order: when a run returns, the same run on the recording source
  returns the same output and has recorded \<open>D\<close> uniform draws for the starting point and
  then, for each step, \<open>D\<close> normal draws for the proposal followed by one uniform draw
  exactly when the candidate is in range and its density is below that of the current
  state.
\<close>

theorem run_chain_deterministic:
  assumes "same_draws R rs1 rs2" and "R g1 g2"
  shows "map_sum id fst (run_chain rs1 steps paramrange sigmaprop D P g1) =
         map_sum id fst (run_chain rs2 steps paramrange sigmaprop D P g2) \<and>
         (run_chain rs1 steps paramrange sigmaprop D P g1 = Inr (out, g') \<longrightarrow>
            (\<exists>h. run_history rs1 steps paramrange sigmaprop D P g1 = Inr h \<and>
                 run_chain (logged rs1) steps paramrange sigmaprop D P (g1, []) =
                   Inr (out, (g', run_draws D paramrange P h))))"
proof (intro conjI impI)
  from sim_run_chain [OF assms]
  show "map_sum id fst (run_chain rs1 steps paramrange sigmaprop D P g1) =
        map_sum id fst (run_chain rs2 steps paramrange sigmaprop D P g2)"
    by (rule rel_result_outputs)
next
  assume "run_chain rs1 steps paramrange sigmaprop D P g1 = Inr (out, g')"
  then show "\<exists>h. run_history rs1 steps paramrange sigmaprop D P g1 = Inr h \<and>
                 run_chain (logged rs1) steps paramrange sigmaprop D P (g1, []) =
                   Inr (out, (g', run_draws D paramrange P h))"
    by (rule recorded_run_chain)
qed

theorem run_chain_deterministic_witness:
  "same_draws (\<lambda>g h. g = fst h) lcg_source (logged lcg_source) \<and>
   (101 :: int) = fst (101 :: int, [] :: draw list) \<and>
   map_sum id fst (run_chain lcg_source 3 [(- 10, 10)] 1 1 bump 101) =
     map_sum id fst (run_chain (logged lcg_source) 3 [(- 10, 10)] 1 1 bump (101, [])) \<and>
   run_chain lcg_source 3 [(- 10, 10)] 1 1 bump 101 =
     Inr (([[4833465105 / 536870912], [19837373999 / 2147483648],
            [1305852097 / 134217728], [20223450583 / 2147483648]], 1), 1477300679) \<and>
   run_chain (logged lcg_source) 3 [(- 10, 10)] 1 1 bump (101, []) =
     Inr (([[4833465105 / 536870912], [19837373999 / 2147483648],
            [1305852097 / 134217728], [20223450583 / 2147483648]], 1),
          1477300679,
          [Uniform_draw, Normal_draw, Uniform_draw, Normal_draw, Uniform_draw, Normal_draw])"
proof -
  have r: "(101 :: int) = fst (101 :: int, [] :: draw list)"
    by simp
  note t = run_chain_deterministic [where R = "\<lambda>g h. g = fst h" and ?rs1.0 = lcg_source
      and ?rs2.0 = "logged lcg_source" and ?g1.0 = 101 and ?g2.0 = "(101, [])"
      and steps = 3 and paramrange = "[(- 10, 10)]" and sigmaprop = 1 and D = 1 and P = bump,
      OF same_draws_logged r]
  from t have e: "map_sum id fst (run_chain lcg_source 3 [(- 10, 10)] 1 1 bump 101) =
     map_sum id fst (run_chain (logged lcg_source) 3 [(- 10, 10)] 1 1 bump (101, []))"
    by (rule conjunct1)
  from t [THEN conjunct2, rule_format, OF run_chain_example_1d]
  have l: "run_chain (logged lcg_source) 3 [(- 10, 10)] 1 1 bump (101, []) =
     Inr (([[4833465105 / 536870912], [19837373999 / 2147483648],
            [1305852097 / 134217728], [20223450583 / 2147483648]], 1),
          1477300679,
          [Uniform_draw, Normal_draw, Uniform_draw, Normal_draw, Uniform_draw, Normal_draw])"
    unfolding run_history_example_1d by (auto simp: run_draws_example_1d)
  from same_draws_logged r e run_chain_example_1d l show ?thesis
    by blast
qed

end
